theory Spec2Isabelle
  imports Main
begin

section \<open>Data model\<close>

text \<open>
  \<^verbatim>\<open>struct LogEntry { std::string timestamp, level, service, message; }\<close>
  (main.cpp, lines 14-19). A \<^verbatim>\<open>std::string\<close> is a sequence of bytes.
\<close>

record LogEntry =
  timestamp :: string
  level :: string
  service :: string
  message :: string

text \<open>A default-constructed \<^verbatim>\<open>LogEntry\<close>: four empty strings.\<close>

definition LogEntry_default :: LogEntry where
  "LogEntry_default = \<lparr>timestamp = [], level = [], service = [], message = []\<rparr>"

section \<open>ThreadSafeQueue\<close>

text \<open>
  The data members of \<^verbatim>\<open>ThreadSafeQueue\<close> (lines 46-50) that carry state:
  \<^verbatim>\<open>std::queue<LogEntry> queue_\<close>, here the field \<open>queue\<close> with the front of the
  queue first, and \<^verbatim>\<open>bool finished_ = false\<close>, here the field \<open>finished\<close> (a name
  cannot end in an underscore). Every member function runs its whole body holding
  \<^verbatim>\<open>mutex_\<close>, so each call is one atomic transition of this state; the condition
  variable only decides when a waiting \<^verbatim>\<open>pop\<close> may make its transition.
\<close>

record ThreadSafeQueue =
  queue :: "LogEntry list"
  finished :: bool

definition ThreadSafeQueue_init :: ThreadSafeQueue where
  "ThreadSafeQueue_init = \<lparr>queue = [], finished = False\<rparr>"

text \<open>\<^verbatim>\<open>void push(const LogEntry &entry)\<close>: \<^verbatim>\<open>queue_.push(entry)\<close> appends at the back.\<close>

definition push :: "LogEntry \<Rightarrow> ThreadSafeQueue \<Rightarrow> ThreadSafeQueue" where
  "push entry q = q\<lparr>queue := queue q @ [entry]\<rparr>"

text \<open>
  \<^verbatim>\<open>bool pop(LogEntry &out)\<close>. The call
  \<^verbatim>\<open>cv_.wait(lock, [&] { return finished_ || !queue_.empty(); })\<close> returns only in a
  state where the predicate holds; while it is false the caller stays suspended, which
  is the outcome \<open>Blocked\<close>. Otherwise the call returns: \<open>Returned r out' q'\<close> gives the
  boolean result, the caller's \<^verbatim>\<open>out\<close> variable after the call and the queue after
  the call. The result \<^verbatim>\<open>false\<close> is the "exhausted" signal.
\<close>

datatype pop_result = Blocked | Returned bool LogEntry ThreadSafeQueue

definition wait_predicate :: "ThreadSafeQueue \<Rightarrow> bool" where
  "wait_predicate q = (finished q \<or> queue q \<noteq> [])"

definition pop :: "ThreadSafeQueue \<Rightarrow> LogEntry \<Rightarrow> pop_result" where
  "pop q out =
     (if \<not> wait_predicate q then Blocked
      else case queue q of
             [] \<Rightarrow> Returned False out q
           | front # rest \<Rightarrow> Returned True front (q\<lparr>queue := rest\<rparr>))"

text \<open>\<^verbatim>\<open>void mark_finished()\<close>: \<^verbatim>\<open>finished_ = true\<close>.\<close>

definition mark_finished :: "ThreadSafeQueue \<Rightarrow> ThreadSafeQueue" where
  "mark_finished q = q\<lparr>finished := True\<rparr>"

text \<open>
  A history of the queue is the sequence of calls in the order in which they take the
  mutex. \<open>Pop out\<close> is a call of \<^verbatim>\<open>pop\<close> whose argument variable holds \<open>out\<close>. What a
  caller of \<^verbatim>\<open>pop\<close> observes is an \<open>event\<close>: a record, the exhausted signal, or no
  return yet.
\<close>

datatype queue_op = Push LogEntry | Pop LogEntry | MarkFinished

datatype event = Popped LogEntry | Exhausted | Waiting

fun run :: "queue_op list \<Rightarrow> ThreadSafeQueue \<Rightarrow> ThreadSafeQueue \<times> event list" where
  "run [] q = (q, [])"
| "run (Push entry # ops) q = run ops (push entry q)"
| "run (MarkFinished # ops) q = run ops (mark_finished q)"
| "run (Pop out # ops) q =
     (case pop q out of
        Blocked \<Rightarrow> (let (q', evs) = run ops q in (q', Waiting # evs))
      | Returned True front q1 \<Rightarrow> (let (q', evs) = run ops q1 in (q', Popped front # evs))
      | Returned False out' q1 \<Rightarrow> (let (q', evs) = run ops q1 in (q', Exhausted # evs)))"

text \<open>The records pushed by a history, and the records its pops returned, in order.\<close>

fun pushed :: "queue_op list \<Rightarrow> LogEntry list" where
  "pushed [] = []"
| "pushed (Push entry # ops) = entry # pushed ops"
| "pushed (Pop out # ops) = pushed ops"
| "pushed (MarkFinished # ops) = pushed ops"

fun popped :: "event list \<Rightarrow> LogEntry list" where
  "popped [] = []"
| "popped (Popped entry # evs) = entry # popped evs"
| "popped (Exhausted # evs) = popped evs"
| "popped (Waiting # evs) = popped evs"

section \<open>The string stream used by the parser\<close>

text \<open>
  \<^verbatim>\<open>parse_line\<close> reads the line through a \<^verbatim>\<open>std::istringstream\<close> with
  \<^verbatim>\<open>operator>>\<close> and \<^verbatim>\<open>std::getline\<close>. These are functions of the C++ standard
  library, modelled here after the C++ standard ([istream::sentry], [string.io]). The
  stream is the characters not yet read and the two state bits that a string stream
  can set; \<^verbatim>\<open>good()\<close> means that neither is set, \<^verbatim>\<open>fail()\<close> is the fail bit.
\<close>

record istringstream =
  buf :: string
  eofbit :: bool
  failbit :: bool

definition istringstream_init :: "string \<Rightarrow> istringstream" where
  "istringstream_init s = \<lparr>buf = s, eofbit = False, failbit = False\<rparr>"

definition good :: "istringstream \<Rightarrow> bool" where
  "good iss = (\<not> eofbit iss \<and> \<not> failbit iss)"

text \<open>
  \<^verbatim>\<open>std::isspace\<close> in the "C" locale, which is the locale of a program that never sets
  one: space, \<^verbatim>\<open>\t\<close>, \<^verbatim>\<open>\n\<close>, \<^verbatim>\<open>\v\<close>, \<^verbatim>\<open>\f\<close>, \<^verbatim>\<open>\r\<close>.
\<close>

definition isspace :: "char \<Rightarrow> bool" where
  "isspace c = (c = CHR '' '' \<or> c = CHR 0x09 \<or> c = CHR 0x0A \<or> c = CHR 0x0B
                \<or> c = CHR 0x0C \<or> c = CHR 0x0D)"

text \<open>
  \<^verbatim>\<open>is >> str\<close> for a \<^verbatim>\<open>std::string\<close>. The sentry fails, setting the fail bit, when
  the stream is not good; otherwise it skips white space, and fails with both bits set
  when that reaches the end. Only when the sentry succeeds is \<open>str\<close> erased and
  filled with the characters up to the next white space or the end; reaching the end
  sets the eof bit. A failed extraction leaves \<open>str\<close> as it was. The result is the
  stream and the string after the call.
\<close>

definition extract_string :: "istringstream \<Rightarrow> string \<Rightarrow> istringstream \<times> string" where
  "extract_string iss str =
     (if \<not> good iss then (iss\<lparr>failbit := True\<rparr>, str)
      else
        (let skipped = dropWhile isspace (buf iss) in
         if skipped = [] then (iss\<lparr>buf := [], eofbit := True, failbit := True\<rparr>, str)
         else
           (let token = takeWhile (\<lambda>c. \<not> isspace c) skipped;
                remaining = dropWhile (\<lambda>c. \<not> isspace c) skipped
            in (iss\<lparr>buf := remaining, eofbit := (remaining = [])\<rparr>, token))))"

text \<open>
  \<^verbatim>\<open>std::getline(is, str)\<close> with the delimiter \<^verbatim>\<open>\n\<close>. Its sentry skips no white
  space. When the sentry succeeds, \<open>str\<close> is erased and filled with the characters up
  to the delimiter, which is read and dropped, or up to the end, which sets the eof
  bit; reading nothing at all sets the fail bit.
\<close>

definition getline :: "istringstream \<Rightarrow> string \<Rightarrow> istringstream \<times> string" where
  "getline iss str =
     (if \<not> good iss then (iss\<lparr>failbit := True\<rparr>, str)
      else
        (let content = takeWhile (\<lambda>c. c \<noteq> CHR 0x0A) (buf iss) in
         case dropWhile (\<lambda>c. c \<noteq> CHR 0x0A) (buf iss) of
           [] \<Rightarrow> (iss\<lparr>buf := [], eofbit := True, failbit := (content = [])\<rparr>, content)
         | delim # remaining \<Rightarrow> (iss\<lparr>buf := remaining\<rparr>, content)))"

section \<open>parse\_line\<close>

text \<open>
  \<^verbatim>\<open>bool parse_line(const std::string &line, LogEntry &entry)\<close> (lines 86-100). The
  result is the returned boolean and the caller's \<^verbatim>\<open>entry\<close> after the call. The
  four extractions of line 89 run left to right; \<^verbatim>\<open>date\<close>, \<^verbatim>\<open>time\<close> and
  \<^verbatim>\<open>rest\<close> are fresh empty strings, the third and fourth target are the fields
  \<^verbatim>\<open>entry.level\<close> and \<^verbatim>\<open>entry.service\<close> themselves.
\<close>

definition parse_line :: "string \<Rightarrow> LogEntry \<Rightarrow> bool \<times> LogEntry" where
  "parse_line line entry =
     (let iss0 = istringstream_init line;
          (iss1, date) = extract_string iss0 [];
          (iss2, time) = extract_string iss1 [];
          (iss3, level') = extract_string iss2 (level entry);
          (iss4, service') = extract_string iss3 (service entry);
          entry' = entry\<lparr>level := level', service := service'\<rparr>
      in if failbit iss4 then (False, entry')
         else
           (let (iss5, rest) = getline iss4 [];
                rest' = (if rest \<noteq> [] \<and> hd rest = CHR '' '' then tl rest else rest)
            in (True, entry'\<lparr>timestamp := date @ '' '' @ time, message := rest'\<rparr>)))"

text \<open>
  The specification's notion of the white-space-separated tokens of a line, written
  from its words (the maximal runs of characters that are not white space) and not from
  the code: one pass over the characters, \<open>cur\<close> being the token read so far.
\<close>

fun ws_tokens_from :: "string \<Rightarrow> string \<Rightarrow> string list" where
  "ws_tokens_from cur [] = (if cur = [] then [] else [cur])"
| "ws_tokens_from cur (c # cs) =
     (if isspace c then (if cur = [] then [] else [cur]) @ ws_tokens_from [] cs
      else ws_tokens_from (cur @ [c]) cs)"

definition ws_tokens :: "string \<Rightarrow> string list" where
  "ws_tokens s = ws_tokens_from [] s"

text \<open>A line, as \<^verbatim>\<open>std::getline\<close> in \<^verbatim>\<open>main\<close> (line 136) delivers it, holds no newline.\<close>

definition newline_free :: "string \<Rightarrow> bool" where
  "newline_free s = (CHR 0x0A \<notin> set s)"

section \<open>OutputWriter\<close>

text \<open>
  \<^verbatim>\<open>std::ostream *target_\<close> points at \<^verbatim>\<open>std::cout\<close> (its initial value) or at the member
  \<^verbatim>\<open>file_\<close>. The streams outside the object are the \<open>world\<close>: the bytes sent so far
  to standard output, to standard error and to the file behind \<^verbatim>\<open>file_\<close>, which is
  opened for appending.
\<close>

datatype target = Cout | File

record OutputWriter =
  target :: target

record world =
  cout_bytes :: string
  cerr_bytes :: string
  file_bytes :: string

text \<open>
  The constructor (lines 56-65). Whether \<^verbatim>\<open>file_.open(path, std::ios::app)\<close> leaves the
  stream open depends on the file system, the parameter \<open>can_open\<close>.
\<close>

definition OutputWriter_ctor ::
    "(string \<Rightarrow> bool) \<Rightarrow> string \<Rightarrow> world \<Rightarrow> OutputWriter \<times> world" where
  "OutputWriter_ctor can_open path w =
     (if path \<noteq> [] then
        (if can_open path then (\<lparr>target = File\<rparr>, w)
         else (\<lparr>target = Cout\<rparr>,
               w\<lparr>cerr_bytes := cerr_bytes w @ ''Unable to open output file: '' @ path
                           @ ''. Falling back to stdout.'' @ [CHR 0x0A]\<rparr>))
      else (\<lparr>target = Cout\<rparr>, w))"

text \<open>
  \<^verbatim>\<open>os << worker_id\<close> for an \<^verbatim>\<open>int\<close> with the default flags: decimal digits, a minus
  sign for a negative value, no padding.
\<close>

definition digit_char :: "nat \<Rightarrow> char" where
  "digit_char d = ''0123456789'' ! d"

function dec_digits :: "nat \<Rightarrow> string" where
  "dec_digits n = (if n < 10 then [digit_char n] else dec_digits (n div 10) @ [digit_char (n mod 10)])"
  by pat_completeness auto
termination
  by (relation "measure id") auto

definition show_int :: "int \<Rightarrow> string" where
  "show_int i = (if i < 0 then CHR ''-'' # dec_digits (nat (- i)) else dec_digits (nat i))"

text \<open>One insertion \<^verbatim>\<open>(*target_) << s\<close>: the bytes go to the end of the stream pointed at.\<close>

definition put :: "target \<Rightarrow> string \<Rightarrow> world \<Rightarrow> world" where
  "put t s w = (case t of Cout \<Rightarrow> w\<lparr>cout_bytes := cout_bytes w @ s\<rparr>
                | File \<Rightarrow> w\<lparr>file_bytes := file_bytes w @ s\<rparr>)"

text \<open>
  The insertions that the body of \<^verbatim>\<open>write\<close> (lines 69-76) makes, in order. The final
  \<^verbatim>\<open>flush\<close> sends no bytes of its own.
\<close>

definition write_chunks :: "OutputWriter \<Rightarrow> LogEntry \<Rightarrow> int \<Rightarrow> string list" where
  "write_chunks ow entry worker_id =
     [''['', timestamp entry, ''] '', level entry, '' '', service entry, '' '', message entry]
     @ (if target ow = Cout then ['' (worker '', show_int worker_id, '')''] else [])
     @ [[CHR 0x0A]]"

text \<open>
  \<^verbatim>\<open>void write(const LogEntry &entry, int worker_id)\<close>, run from taking the mutex to
  releasing it: the object after the call, no member of which is assigned, and the
  world after the call.
\<close>

definition OutputWriter_write :: "OutputWriter \<Rightarrow> LogEntry \<Rightarrow> int \<Rightarrow> world \<Rightarrow> OutputWriter \<times> world" where
  "OutputWriter_write ow entry worker_id w = (ow, fold (put (target ow)) (write_chunks ow entry worker_id) w)"

text \<open>The complete line that one call of \<^verbatim>\<open>write\<close> sends.\<close>

definition rendered_line :: "OutputWriter \<Rightarrow> LogEntry \<times> int \<Rightarrow> string" where
  "rendered_line ow call = concat (write_chunks ow (fst call) (snd call))"

subsection \<open>Concurrent calls of write\<close>

text \<open>
  Several threads call \<^verbatim>\<open>write\<close> on one \<^verbatim>\<open>OutputWriter\<close>. A call is its arguments;
  its progress is \<open>Before\<close> while the constructor of the \<^verbatim>\<open>std::lock_guard\<close> of line 68
  has not returned, \<open>Inside k\<close> once it holds \<^verbatim>\<open>mutex_\<close> and has made \<open>k\<close> steps of the
  body, and \<open>After\<close> once the guard is destroyed. The steps of the body are the
  insertions of \<open>write_chunks\<close>, one at a time, then the \<^verbatim>\<open>flush\<close>, then the release of
  the mutex. \<^verbatim>\<open>std::mutex\<close> is a flag: taking it is possible only while it is free.
\<close>

datatype progress = Before | Inside nat | After

record sink =
  locked :: bool
  progress :: "progress list"
  streams :: world

definition sink_init :: "nat \<Rightarrow> world \<Rightarrow> sink" where
  "sink_init n w = \<lparr>locked = False, progress = replicate n Before, streams = w\<rparr>"

text \<open>One step of call \<open>i\<close>; \<open>None\<close> when the call cannot move (it waits for the mutex, or
  it has returned, or there is no such call).\<close>

definition call_step ::
    "OutputWriter \<Rightarrow> (LogEntry \<times> int) list \<Rightarrow> nat \<Rightarrow> sink \<Rightarrow> sink option" where
  "call_step ow calls i s =
     (if i \<ge> length calls \<or> i \<ge> length (progress s) then None
      else case progress s ! i of
        Before \<Rightarrow>
          (if locked s then None
           else Some (s\<lparr>locked := True, progress := (progress s)[i := Inside 0]\<rparr>))
      | Inside k \<Rightarrow>
          (let chunks = write_chunks ow (fst (calls ! i)) (snd (calls ! i)) in
           if k < length chunks then
             Some (s\<lparr>progress := (progress s)[i := Inside (Suc k)],
                     streams := put (target ow) (chunks ! k) (streams s)\<rparr>)
           else if k = length chunks then
             Some (s\<lparr>progress := (progress s)[i := Inside (Suc k)]\<rparr>)
           else Some (s\<lparr>locked := False, progress := (progress s)[i := After]\<rparr>))
      | After \<Rightarrow> None)"

text \<open>A schedule names the call that moves next; any interleaving of the calls is a schedule.\<close>

fun schedule ::
    "OutputWriter \<Rightarrow> (LogEntry \<times> int) list \<Rightarrow> nat list \<Rightarrow> sink \<Rightarrow> sink option" where
  "schedule ow calls [] s = Some s"
| "schedule ow calls (i # sched) s =
     (case call_step ow calls i s of None \<Rightarrow> None | Some s' \<Rightarrow> schedule ow calls sched s')"

text \<open>The calls \<open>cs\<close> of \<^verbatim>\<open>write\<close> made one after the other, each complete before the next.\<close>

fun write_all :: "OutputWriter \<Rightarrow> (LogEntry \<times> int) list \<Rightarrow> world \<Rightarrow> world" where
  "write_all ow [] w = w"
| "write_all ow (c # cs) w = write_all ow cs (snd (OutputWriter_write ow (fst c) (snd c) w))"

text \<open>
  The invariant of the concurrent calls: the destination has received the complete lines
  of the calls that have returned, in the order \<open>order\<close> in which they returned,
  followed by \<open>partial\<close>, the part of its line that the one call inside has sent so
  far; a call is inside exactly when the mutex is taken, and at most one call is.
\<close>

definition serialized ::
    "OutputWriter \<Rightarrow> (LogEntry \<times> int) list \<Rightarrow> world \<Rightarrow> sink \<Rightarrow> nat list \<Rightarrow> string \<Rightarrow> bool" where
  "serialized ow calls w s order partial =
     (length (progress s) = length calls
      \<and> distinct order
      \<and> set order = {i. i < length calls \<and> progress s ! i = After}
      \<and> streams s
          = put (target ow) (concat (map (\<lambda>i. rendered_line ow (calls ! i)) order) @ partial) w
      \<and> (\<forall>i k. i < length calls \<and> progress s ! i = Inside k \<longrightarrow>
            locked s
            \<and> partial = concat (take k (write_chunks ow (fst (calls ! i)) (snd (calls ! i))))
            \<and> (\<forall>j l. j < length calls \<and> progress s ! j = Inside l \<longrightarrow> j = i))
      \<and> ((\<forall>i k. i < length calls \<longrightarrow> progress s ! i \<noteq> Inside k) \<longrightarrow>
            \<not> locked s \<and> partial = []))"

section \<open>Properties of the queue\<close>

lemma pop_exhausted_iff:
  "(\<exists>out' q'. pop q out = Returned False out' q') \<longleftrightarrow> (queue q = [] \<and> finished q)"
  by (auto simp: pop_def wait_predicate_def split: list.splits)

lemma pop_nonempty:
  "queue q \<noteq> [] \<Longrightarrow> pop q out = Returned True (hd (queue q)) (q\<lparr>queue := tl (queue q)\<rparr>)"
  by (cases "queue q") (simp_all add: pop_def wait_predicate_def)

lemma pop_finished_empty:
  "queue q = [] \<Longrightarrow> finished q \<Longrightarrow> pop q out = Returned False out q"
  by (simp add: pop_def wait_predicate_def)

lemma pop_blocked_iff:
  "pop q out = Blocked \<longleftrightarrow> (queue q = [] \<and> \<not> finished q)"
  by (auto simp: pop_def wait_predicate_def split: list.splits)

lemma run_pops_drained:
  "queue q = [] \<Longrightarrow> finished q \<Longrightarrow>
   run (map Pop outs) q = (q, replicate (length outs) Exhausted)"
  by (induction outs) (simp_all add: pop_finished_empty)

lemma run_append:
  "run (ops1 @ ops2) q =
     (let (q1, evs1) = run ops1 q; (q2, evs2) = run ops2 q1 in (q2, evs1 @ evs2))"
proof (induction ops1 arbitrary: q)
  case Nil
  show ?case by (simp split: prod.splits)
next
  case (Cons op ops1)
  show ?case
  proof (cases op)
    case (Push entry)
    then show ?thesis using Cons.IH by simp
  next
    case (Pop out)
    then show ?thesis using Cons.IH
      by (simp split: pop_result.splits bool.splits prod.splits)
  next
    case MarkFinished
    then show ?thesis using Cons.IH by simp
  qed
qed

lemma run_pops_all:
  "queue q = xs \<Longrightarrow>
   run (map Pop (replicate (length xs) out)) q = (q\<lparr>queue := []\<rparr>, map Popped xs)"
proof (induction xs arbitrary: q)
  case Nil
  then show ?case by simp
next
  case (Cons x xs)
  have "pop q out = Returned True x (q\<lparr>queue := xs\<rparr>)"
    using Cons.prems by (simp add: pop_def wait_predicate_def)
  moreover have "run (map Pop (replicate (length xs) out)) (q\<lparr>queue := xs\<rparr>)
                 = (q\<lparr>queue := []\<rparr>, map Popped xs)"
    using Cons.IH [of "q\<lparr>queue := xs\<rparr>"] by simp
  ultimately show ?case by simp
qed

lemma run_pushes:
  "run (map Push es) q = (q\<lparr>queue := queue q @ es\<rparr>, [])"
  by (induction es arbitrary: q) (simp_all add: push_def)

lemma pushed_map_Push: "pushed (map Push es) = es"
  by (induction es) simp_all

lemma run_fifo_invariant:
  "run ops q0 = (q, evs) \<Longrightarrow> popped evs @ queue q = queue q0 @ pushed ops"
proof (induction ops arbitrary: q0 q evs)
  case Nil
  then show ?case by simp
next
  case (Cons op ops)
  show ?case
  proof (cases op)
    case (Push entry)
    then show ?thesis using Cons.IH [of "push entry q0" q evs] Cons.prems
      by (simp add: push_def)
  next
    case MarkFinished
    then show ?thesis using Cons.IH [of "mark_finished q0" q evs] Cons.prems
      by (simp add: mark_finished_def)
  next
    case (Pop out)
    obtain q1 evs1 where r1: "run ops q0 = (q1, evs1)" by (cases "run ops q0")
    show ?thesis
    proof (cases "queue q0")
      case Nil
      have "pop q0 out = Blocked \<or> pop q0 out = Returned False out q0"
        using Nil by (simp add: pop_def wait_predicate_def)
      then have "popped evs = popped evs1 \<and> q = q1"
        using Cons.prems Pop r1 by auto
      then show ?thesis using Cons.IH [OF r1] Pop by simp
    next
      case (Cons front rest)
      obtain q2 evs2 where r2: "run ops (q0\<lparr>queue := rest\<rparr>) = (q2, evs2)"
        by (cases "run ops (q0\<lparr>queue := rest\<rparr>)")
      have "pop q0 out = Returned True front (q0\<lparr>queue := rest\<rparr>)"
        using Cons by (simp add: pop_def wait_predicate_def)
      then have "evs = Popped front # evs2 \<and> q = q2"
        using \<open>run (op # ops) q0 = (q, evs)\<close> Pop r2 by simp
      then show ?thesis using \<open>\<And>q0 q evs. run ops q0 = (q, evs) \<Longrightarrow> popped evs @ queue q = queue q0 @ pushed ops\<close> [OF r2] Cons Pop
        by simp
    qed
  qed
qed

lemma run_finished_kept:
  "finished q0 \<Longrightarrow> finished (fst (run ops q0))"
proof (induction ops arbitrary: q0)
  case Nil
  then show ?case by simp
next
  case (Cons op ops)
  show ?case
  proof (cases op)
    case (Push entry)
    then show ?thesis using Cons.IH [of "push entry q0"] Cons.prems by (simp add: push_def)
  next
    case MarkFinished
    then show ?thesis using Cons.IH [of "mark_finished q0"] by (simp add: mark_finished_def)
  next
    case (Pop out)
    show ?thesis
    proof (cases "queue q0")
      case Nil
      then have "pop q0 out = Returned False out q0"
        using Cons.prems by (simp add: pop_finished_empty)
      then show ?thesis using Pop Cons.IH [OF Cons.prems] by (auto split: prod.splits)
    next
      case (Cons front rest)
      then have "pop q0 out = Returned True front (q0\<lparr>queue := rest\<rparr>)"
        by (simp add: pop_def wait_predicate_def)
      moreover have "finished (fst (run ops (q0\<lparr>queue := rest\<rparr>)))"
        using \<open>\<And>q0. finished q0 \<Longrightarrow> finished (fst (run ops q0))\<close> [of "q0\<lparr>queue := rest\<rparr>"]
          \<open>finished q0\<close> by simp
      ultimately show ?thesis using Pop by (auto split: prod.splits)
    qed
  qed
qed

text \<open>
  Claim C1. In every state of the queue, \<^verbatim>\<open>pop\<close> returns the exhausted signal exactly
  when the queue is empty and \<^verbatim>\<open>mark_finished\<close> has been called. While a record is
  queued, \<^verbatim>\<open>pop\<close> returns the front record, finished or not. Once the queue is finished
  and empty, a call returns exhausted and leaves the state as it was, so every further
  call of every consumer returns exhausted, none blocks; this holds in particular after
  \<^verbatim>\<open>mark_finished\<close> on a queue into which nothing was ever pushed.
\<close>

theorem pop_exhausted_iff_finished_and_empty:
  "((\<exists>out' q'. pop q out = Returned False out' q') \<longleftrightarrow> (queue q = [] \<and> finished q))
   \<and> (queue q \<noteq> [] \<longrightarrow>
        pop q out = Returned True (hd (queue q)) (q\<lparr>queue := tl (queue q)\<rparr>))
   \<and> (queue q = [] \<and> finished q \<longrightarrow>
        pop q out = Returned False out q
        \<and> run (map Pop outs) q = (q, replicate (length outs) Exhausted))
   \<and> run (MarkFinished # map Pop outs) ThreadSafeQueue_init
       = (mark_finished ThreadSafeQueue_init, replicate (length outs) Exhausted)"
proof -
  have "run (map Pop outs) (mark_finished ThreadSafeQueue_init)
        = (mark_finished ThreadSafeQueue_init, replicate (length outs) Exhausted)"
    by (rule run_pops_drained) (simp_all add: mark_finished_def ThreadSafeQueue_init_def)
  then show ?thesis
    using pop_exhausted_iff [of q out] pop_nonempty [of q out]
      pop_finished_empty [of q out] run_pops_drained [of q outs]
    by simp
qed

theorem pop_exhausted_iff_finished_and_empty_witness:
  "pop \<lparr>queue = [], finished = True\<rparr> LogEntry_default
     = Returned False LogEntry_default \<lparr>queue = [], finished = True\<rparr>
   \<and> run (map Pop [LogEntry_default, LogEntry_default]) \<lparr>queue = [], finished = True\<rparr>
     = (\<lparr>queue = [], finished = True\<rparr>, [Exhausted, Exhausted])
   \<and> pop \<lparr>queue = [LogEntry_default], finished = True\<rparr> LogEntry_default
     = Returned True LogEntry_default \<lparr>queue = [], finished = True\<rparr>"
  using pop_exhausted_iff_finished_and_empty
          [of "\<lparr>queue = [], finished = True\<rparr>" LogEntry_default
              "[LogEntry_default, LogEntry_default]"]
        pop_exhausted_iff_finished_and_empty
          [of "\<lparr>queue = [LogEntry_default], finished = True\<rparr>" LogEntry_default "[]"]
  by simp

text \<open>
  Claim C6. Records leave the queue in the order in which they were pushed. For every
  history starting from the empty queue, the records returned so far followed by the
  records still queued are the pushed records in push order; a successful \<^verbatim>\<open>pop\<close>
  returns the front of the queue, the earliest pushed of the records queued; when the
  queue has been emptied the returned records are exactly the push sequence; and
  pushing \<open>es\<close> and then popping as many times returns \<open>es\<close>.
\<close>

theorem pops_return_push_order:
  assumes "run ops ThreadSafeQueue_init = (q, evs)"
  shows "popped evs @ queue q = pushed ops
         \<and> (\<forall>out front q'. pop q out = Returned True front q' \<longrightarrow> queue q = front # queue q')
         \<and> (queue q = [] \<longrightarrow> popped evs = pushed ops)
         \<and> run (map Push es @ map Pop (replicate (length es) out0)) ThreadSafeQueue_init
             = (ThreadSafeQueue_init, map Popped es)"
proof -
  have a: "popped evs @ queue q = pushed ops"
    using run_fifo_invariant [OF assms] by (simp add: ThreadSafeQueue_init_def)
  have b: "\<forall>out front q'. pop q out = Returned True front q' \<longrightarrow> queue q = front # queue q'"
    by (auto simp: pop_def wait_predicate_def split: list.splits if_splits)
  have c: "run (map Push es @ map Pop (replicate (length es) out0)) ThreadSafeQueue_init
           = (ThreadSafeQueue_init, map Popped es)"
    using run_pops_all [of "ThreadSafeQueue_init\<lparr>queue := es\<rparr>" es out0]
    by (simp add: run_append run_pushes ThreadSafeQueue_init_def)
  from a b c show ?thesis by auto
qed

theorem pops_return_push_order_witness:
  "run [Push (LogEntry_default\<lparr>message := ''a''\<rparr>), Push (LogEntry_default\<lparr>message := ''b''\<rparr>),
        Pop LogEntry_default, MarkFinished, Pop LogEntry_default] ThreadSafeQueue_init
     = (\<lparr>queue = [], finished = True\<rparr>,
        [Popped (LogEntry_default\<lparr>message := ''a''\<rparr>),
         Popped (LogEntry_default\<lparr>message := ''b''\<rparr>)])
   \<and> popped [Popped (LogEntry_default\<lparr>message := ''a''\<rparr>),
               Popped (LogEntry_default\<lparr>message := ''b''\<rparr>)]
     = pushed [Push (LogEntry_default\<lparr>message := ''a''\<rparr>),
               Push (LogEntry_default\<lparr>message := ''b''\<rparr>),
               Pop LogEntry_default, MarkFinished, Pop LogEntry_default]"
proof -
  have r: "run [Push (LogEntry_default\<lparr>message := ''a''\<rparr>),
                Push (LogEntry_default\<lparr>message := ''b''\<rparr>),
                Pop LogEntry_default, MarkFinished, Pop LogEntry_default] ThreadSafeQueue_init
           = (\<lparr>queue = [], finished = True\<rparr>,
              [Popped (LogEntry_default\<lparr>message := ''a''\<rparr>),
               Popped (LogEntry_default\<lparr>message := ''b''\<rparr>)])"
    by (simp add: push_def pop_def wait_predicate_def mark_finished_def
          ThreadSafeQueue_init_def)
  show ?thesis using r pops_return_push_order [OF r] by simp
qed

text \<open>
  Claim C8. \<^verbatim>\<open>mark_finished\<close> is idempotent: calling it again gives the very same
  state, so a history that calls it any number of times in a row continues as the
  history that calls it once. The flag is one-way: once set, it stays set through every
  \<^verbatim>\<open>push\<close>, \<^verbatim>\<open>pop\<close> and \<^verbatim>\<open>mark_finished\<close>, and through every history.
\<close>

theorem mark_finished_idempotent:
  "mark_finished (mark_finished q) = mark_finished q
   \<and> run (replicate (Suc n) MarkFinished @ ops) q = run (MarkFinished # ops) q
   \<and> finished (mark_finished q)
   \<and> (finished q \<longrightarrow>
        finished (push entry q) \<and> mark_finished q = q
        \<and> (\<forall>r out' q'. pop q out = Returned r out' q' \<longrightarrow> finished q')
        \<and> finished (fst (run ops q)))"
proof -
  have idem: "mark_finished (mark_finished q') = mark_finished q'" for q'
    by (simp add: mark_finished_def)
  have rep: "run (replicate (Suc n) MarkFinished @ ops) q = run (MarkFinished # ops) q"
    by (induction n) (simp_all add: idem)
  have keep: "finished q \<longrightarrow> (\<forall>r out' q'. pop q out = Returned r out' q' \<longrightarrow> finished q')"
    by (auto simp: pop_def wait_predicate_def split: list.splits if_splits)
  show ?thesis
    using idem [of q] rep keep run_finished_kept [of q ops]
    by (simp add: mark_finished_def push_def)
qed

theorem mark_finished_idempotent_witness:
  "finished \<lparr>queue = [LogEntry_default], finished = True\<rparr>
   \<and> finished (push LogEntry_default \<lparr>queue = [LogEntry_default], finished = True\<rparr>)
   \<and> finished (fst (run [Pop LogEntry_default, Push LogEntry_default, Pop LogEntry_default,
                          Pop LogEntry_default]
                      \<lparr>queue = [LogEntry_default], finished = True\<rparr>))"
  using mark_finished_idempotent
          [of "\<lparr>queue = [LogEntry_default], finished = True\<rparr>" 0
              "[Pop LogEntry_default, Push LogEntry_default, Pop LogEntry_default,
                Pop LogEntry_default]" LogEntry_default LogEntry_default]
  by simp

text \<open>
  Claim C10. The finished flag does not close the producer side. A \<^verbatim>\<open>push\<close> after
  \<^verbatim>\<open>mark_finished\<close> enqueues the record like any other push, the next \<^verbatim>\<open>pop\<close> returns
  a record and not the exhausted signal, and it is the pushed record itself when the
  queue was empty; draining the queue returns the records queued before and then the
  record pushed after the flag was set.
\<close>

theorem push_after_mark_finished_accepted:
  "push entry (mark_finished q) = \<lparr>queue = queue q @ [entry], finished = True\<rparr>
   \<and> pop (push entry (mark_finished q)) out
       = Returned True (hd (queue q @ [entry]))
           \<lparr>queue = tl (queue q @ [entry]), finished = True\<rparr>
   \<and> (queue q = [] \<longrightarrow>
        pop (push entry (mark_finished q)) out = Returned True entry (mark_finished q))
   \<and> run (MarkFinished # Push entry # map Pop (replicate (Suc (length (queue q))) out)) q
       = (\<lparr>queue = [], finished = True\<rparr>, map Popped (queue q @ [entry]))"
proof -
  let ?q = "push entry (mark_finished q)"
  have a: "?q = \<lparr>queue = queue q @ [entry], finished = True\<rparr>"
    by (simp add: push_def mark_finished_def)
  have b: "pop ?q out = Returned True (hd (queue q @ [entry]))
                          \<lparr>queue = tl (queue q @ [entry]), finished = True\<rparr>"
    using pop_nonempty [of ?q out] by (simp add: a)
  have c: "queue q = [] \<longrightarrow> pop ?q out = Returned True entry (mark_finished q)"
    using b by (auto simp: mark_finished_def)
  have "run (map Pop (replicate (length (queue q @ [entry])) out)) ?q
        = (?q\<lparr>queue := []\<rparr>, map Popped (queue q @ [entry]))"
    by (rule run_pops_all) (simp add: a)
  then have d: "run (MarkFinished # Push entry
                      # map Pop (replicate (Suc (length (queue q))) out)) q
                = (\<lparr>queue = [], finished = True\<rparr>, map Popped (queue q @ [entry]))"
    by (simp add: a)
  from a b c d show ?thesis by blast
qed

theorem push_after_mark_finished_accepted_witness:
  "pop (push (LogEntry_default\<lparr>message := ''late''\<rparr>) (mark_finished ThreadSafeQueue_init))
       LogEntry_default
     = Returned True (LogEntry_default\<lparr>message := ''late''\<rparr>)
         (mark_finished ThreadSafeQueue_init)"
proof -
  have "queue ThreadSafeQueue_init = []"
    by (simp add: ThreadSafeQueue_init_def)
  with push_after_mark_finished_accepted
         [of "LogEntry_default\<lparr>message := ''late''\<rparr>" ThreadSafeQueue_init LogEntry_default]
  show ?thesis by blast
qed

section \<open>Properties of the output writer\<close>

lemma put_Nil: "put t [] w = w"
  by (cases t) (simp_all add: put_def)

lemma put_append: "put t (a @ b) w = put t b (put t a w)"
  by (cases t) (simp_all add: put_def)

lemma fold_put_concat: "fold (put t) chunks w = put t (concat chunks) w"
  by (induction chunks arbitrary: w) (simp_all add: put_Nil put_append)

lemma write_rendered_line:
  "OutputWriter_write ow entry worker_id w
     = (ow, put (target ow) (rendered_line ow (entry, worker_id)) w)"
  by (simp add: OutputWriter_write_def rendered_line_def fold_put_concat)

lemma rendered_line_eq:
  "rendered_line ow (entry, worker_id)
     = ''['' @ timestamp entry @ ''] '' @ level entry @ '' '' @ service entry @ '' ''
       @ message entry
       @ (if target ow = Cout then '' (worker '' @ show_int worker_id @ '')'' else [])
       @ [CHR 0x0A]"
  by (simp add: rendered_line_def write_chunks_def)

text \<open>
  Claim C4, as stated, at a record with an empty message and the file as destination: the
  claim gives the line \<^verbatim>\<open>[t] l s\<close> followed directly by the newline. The code sends
  the separating space after the service field whatever the message is, so the line
  ends in a space before the newline.
\<close>

theorem write_empty_message_counterexample:
  "file_bytes (snd (OutputWriter_write \<lparr>target = File\<rparr>
        \<lparr>timestamp = ''t'', level = ''l'', service = ''s'', message = []\<rparr> 0
        \<lparr>cout_bytes = [], cerr_bytes = [], file_bytes = []\<rparr>))
     = ''[t] l s '' @ [CHR 0x0A]
   \<and> file_bytes (snd (OutputWriter_write \<lparr>target = File\<rparr>
        \<lparr>timestamp = ''t'', level = ''l'', service = ''s'', message = []\<rparr> 0
        \<lparr>cout_bytes = [], cerr_bytes = [], file_bytes = []\<rparr>))
     \<noteq> ''[t] l s'' @ [CHR 0x0A]"
  by (simp add: OutputWriter_write_def write_chunks_def put_def)

text \<open>
  Claim C4, amended. For every record and worker identity, \<^verbatim>\<open>write\<close> sends to its
  destination exactly \<^verbatim>\<open>[timestamp] level service \<close> (one space after each of the
  three fields, also after \<open>service\<close>), then the message, then \<^verbatim>\<open> (worker <id>)\<close> if and
  only if the destination is the console, then one newline. With an empty message the
  line to a file is therefore \<^verbatim>\<open>[timestamp] level service \<close> and the newline.
\<close>

theorem write_renders_line:
  "OutputWriter_write ow entry worker_id w
     = (ow, put (target ow)
              (''['' @ timestamp entry @ ''] '' @ level entry @ '' '' @ service entry @ '' ''
               @ message entry
               @ (if target ow = Cout then '' (worker '' @ show_int worker_id @ '')'' else [])
               @ [CHR 0x0A]) w)
   \<and> (target ow = File \<and> message entry = [] \<longrightarrow>
        snd (OutputWriter_write ow entry worker_id w)
          = w\<lparr>file_bytes := file_bytes w @ ''['' @ timestamp entry @ ''] '' @ level entry
                               @ '' '' @ service entry @ '' '' @ [CHR 0x0A]\<rparr>)"
  by (simp add: write_rendered_line rendered_line_eq put_def)

theorem write_renders_line_witness:
  "OutputWriter_write \<lparr>target = Cout\<rparr>
      \<lparr>timestamp = ''2024-01-01 10:00:00'', level = ''INFO'', service = ''auth'',
       message = ''user logged in''\<rparr> 0
      \<lparr>cout_bytes = [], cerr_bytes = [], file_bytes = []\<rparr>
     = (\<lparr>target = Cout\<rparr>,
        \<lparr>cout_bytes = ''[2024-01-01 10:00:00] INFO auth user logged in (worker 0)''
                       @ [CHR 0x0A],
         cerr_bytes = [], file_bytes = []\<rparr>)
   \<and> snd (OutputWriter_write \<lparr>target = File\<rparr>
        \<lparr>timestamp = ''t'', level = ''l'', service = ''s'', message = []\<rparr> 3
        \<lparr>cout_bytes = [], cerr_bytes = [], file_bytes = ''x''\<rparr>)
     = \<lparr>cout_bytes = [], cerr_bytes = [], file_bytes = ''x[t] l s '' @ [CHR 0x0A]\<rparr>"
  using write_renders_line
          [of "\<lparr>target = Cout\<rparr>"
              "\<lparr>timestamp = ''2024-01-01 10:00:00'', level = ''INFO'', service = ''auth'',
                message = ''user logged in''\<rparr>" 0
              "\<lparr>cout_bytes = [], cerr_bytes = [], file_bytes = []\<rparr>"]
        write_renders_line
          [of "\<lparr>target = File\<rparr>"
              "\<lparr>timestamp = ''t'', level = ''l'', service = ''s'', message = []\<rparr>" 3
              "\<lparr>cout_bytes = [], cerr_bytes = [], file_bytes = ''x''\<rparr>"]
  by (simp add: put_def show_int_def digit_char_def)

text \<open>
  Claim C7. When no path is supplied (the empty string) or the path cannot be opened,
  the constructor leaves the console as destination, and every line written afterwards
  goes to the console and carries the worker identity. When the path was supplied and
  could not be opened, the constructor sends exactly one diagnostic line to standard
  error; with no path it sends nothing. \<^verbatim>\<open>write\<close> leaves the object, hence the
  destination, as it was, sends nothing to standard error, and always returns.
\<close>

theorem console_fallback:
  assumes "path = [] \<or> \<not> can_open path"
  shows "target (fst (OutputWriter_ctor can_open path w)) = Cout
         \<and> (path = [] \<longrightarrow> snd (OutputWriter_ctor can_open path w) = w)
         \<and> (path \<noteq> [] \<longrightarrow>
              snd (OutputWriter_ctor can_open path w)
                = w\<lparr>cerr_bytes := cerr_bytes w @ ''Unable to open output file: '' @ path
                                     @ ''. Falling back to stdout.'' @ [CHR 0x0A]\<rparr>)
         \<and> OutputWriter_write (fst (OutputWriter_ctor can_open path w)) entry worker_id w'
             = (fst (OutputWriter_ctor can_open path w),
                w'\<lparr>cout_bytes := cout_bytes w' @ ''['' @ timestamp entry @ ''] ''
                       @ level entry @ '' '' @ service entry @ '' '' @ message entry
                       @ '' (worker '' @ show_int worker_id @ '')'' @ [CHR 0x0A]\<rparr>)
         \<and> fst (OutputWriter_write ow entry worker_id w') = ow
         \<and> cerr_bytes (snd (OutputWriter_write ow entry worker_id w')) = cerr_bytes w'"
proof -
  have t: "target (fst (OutputWriter_ctor can_open path w)) = Cout"
    using assms by (auto simp: OutputWriter_ctor_def)
  have d: "cerr_bytes (snd (OutputWriter_write ow entry worker_id w')) = cerr_bytes w'"
    by (cases "target ow") (simp_all add: write_rendered_line put_def)
  show ?thesis
    using assms t d
    by (auto simp: write_rendered_line rendered_line_eq put_def OutputWriter_ctor_def)
qed

theorem console_fallback_witness:
  "OutputWriter_ctor (\<lambda>p. False) ''/nodir/out.log''
      \<lparr>cout_bytes = [], cerr_bytes = [], file_bytes = []\<rparr>
     = (\<lparr>target = Cout\<rparr>,
        \<lparr>cout_bytes = [],
         cerr_bytes = ''Unable to open output file: /nodir/out.log. Falling back to stdout.''
                       @ [CHR 0x0A],
         file_bytes = []\<rparr>)
   \<and> OutputWriter_ctor (\<lambda>p. True) [] \<lparr>cout_bytes = [], cerr_bytes = [], file_bytes = []\<rparr>
     = (\<lparr>target = Cout\<rparr>, \<lparr>cout_bytes = [], cerr_bytes = [], file_bytes = []\<rparr>)"
proof -
  have h1: "''/nodir/out.log'' = [] \<or> \<not> (\<lambda>p::string. False) ''/nodir/out.log''" by simp
  have h2: "([]::string) = [] \<or> \<not> (\<lambda>p::string. True) []" by simp
  have n: "''/nodir/out.log'' \<noteq> []" by simp
  show ?thesis
    using console_fallback [OF h1, of "\<lparr>cout_bytes = [], cerr_bytes = [], file_bytes = []\<rparr>"]
      console_fallback [OF h2, of "\<lparr>cout_bytes = [], cerr_bytes = [], file_bytes = []\<rparr>"] n
    by (cases "OutputWriter_ctor (\<lambda>p. False) ''/nodir/out.log''
                 \<lparr>cout_bytes = [], cerr_bytes = [], file_bytes = []\<rparr>";
        cases "OutputWriter_ctor (\<lambda>p. True) []
                 \<lparr>cout_bytes = [], cerr_bytes = [], file_bytes = []\<rparr>") auto
qed

section \<open>Properties of the parser\<close>

text \<open>The tokens of the specification, in terms of the list functions the stream model uses.\<close>

lemma at_least_four_elements:
  assumes "4 \<le> length xs"
  shows "\<exists>a b c d ys. xs = a # b # c # d # ys"
proof -
  obtain a xs1 where 1: "xs = a # xs1" "3 \<le> length xs1"
    using assms by (cases xs) auto
  obtain b xs2 where 2: "xs1 = b # xs2" "2 \<le> length xs2"
    using 1(2) by (cases xs1) auto
  obtain c xs3 where 3: "xs2 = c # xs3" "1 \<le> length xs3"
    using 2(2) by (cases xs2) auto
  obtain d ys where 4: "xs3 = d # ys"
    using 3(2) by (cases xs3) auto
  show ?thesis using 1(1) 2(1) 3(1) 4 by blast
qed

lemma dropWhile_takeWhile_same: "dropWhile P (takeWhile P xs) = []"
  by (induction xs) auto

lemma ws_tokens_from_split:
  "ws_tokens_from cur s =
     (if cur @ takeWhile (\<lambda>c. \<not> isspace c) s = [] then []
      else [cur @ takeWhile (\<lambda>c. \<not> isspace c) s])
     @ ws_tokens (dropWhile (\<lambda>c. \<not> isspace c) s)"
  unfolding ws_tokens_def
  by (induction s arbitrary: cur) simp_all

lemma ws_tokens_dropWhile_space: "ws_tokens (dropWhile isspace s) = ws_tokens s"
  unfolding ws_tokens_def by (induction s) simp_all

lemma ws_tokens_first:
  assumes "dropWhile isspace s \<noteq> []"
  shows "ws_tokens s = takeWhile (\<lambda>c. \<not> isspace c) (dropWhile isspace s)
                        # ws_tokens (dropWhile (\<lambda>c. \<not> isspace c) (dropWhile isspace s))"
proof -
  have "\<not> isspace (hd (dropWhile isspace s))"
    using assms by (rule hd_dropWhile)
  then have "takeWhile (\<lambda>c. \<not> isspace c) (dropWhile isspace s) \<noteq> []"
    using assms by (cases "dropWhile isspace s") simp_all
  then have "ws_tokens (dropWhile isspace s)
             = takeWhile (\<lambda>c. \<not> isspace c) (dropWhile isspace s)
               # ws_tokens (dropWhile (\<lambda>c. \<not> isspace c) (dropWhile isspace s))"
    using ws_tokens_from_split [of "[]" "dropWhile isspace s"] by (simp add: ws_tokens_def)
  then show ?thesis by (simp add: ws_tokens_dropWhile_space)
qed

lemma ws_tokens_Nil_iff: "ws_tokens s = [] \<longleftrightarrow> dropWhile isspace s = []"
proof
  assume "ws_tokens s = []"
  then show "dropWhile isspace s = []"
    using ws_tokens_first [of s] by auto
next
  assume "dropWhile isspace s = []"
  then have "ws_tokens (dropWhile isspace s) = ws_tokens []" by (simp only:)
  moreover have "ws_tokens [] = []" by (simp add: ws_tokens_def)
  ultimately show "ws_tokens s = []" by (simp only: ws_tokens_dropWhile_space)
qed

lemma ws_tokens_from_append_space:
  "b = [] \<or> isspace (hd b) \<Longrightarrow> ws_tokens_from cur (a @ b) = ws_tokens_from cur a @ ws_tokens b"
  unfolding ws_tokens_def
  by (induction a arbitrary: cur) (cases b; auto)+

lemma ws_tokens_append_space:
  "b = [] \<or> isspace (hd b) \<Longrightarrow> ws_tokens (a @ b) = ws_tokens a @ ws_tokens b"
  using ws_tokens_from_append_space [of b "[]" a] by (simp add: ws_tokens_def)

lemma extract_string_token:
  assumes "\<not> failbit iss" and "eofbit iss \<longrightarrow> buf iss = []"
    and "ws_tokens (buf iss) = t # ts"
  shows "\<exists>iss' p. (\<forall>str. extract_string iss str = (iss', t)) \<and> \<not> failbit iss'
           \<and> (eofbit iss' \<longleftrightarrow> buf iss' = []) \<and> ws_tokens (buf iss') = ts
           \<and> buf iss = p @ buf iss' \<and> ws_tokens p = [t] \<and> p \<noteq> [] \<and> \<not> isspace (last p)
           \<and> (buf iss' = [] \<or> isspace (hd (buf iss')))"
proof -
  let ?sk = "dropWhile isspace (buf iss)"
  let ?tok = "takeWhile (\<lambda>c. \<not> isspace c) ?sk"
  let ?rem = "dropWhile (\<lambda>c. \<not> isspace c) ?sk"
  let ?p = "takeWhile isspace (buf iss) @ ?tok"
  have sk: "?sk \<noteq> []"
    using assms(3) ws_tokens_Nil_iff [of "buf iss"] by auto
  then have "buf iss \<noteq> []" by auto
  then have g: "good iss" using assms(1,2) by (auto simp: good_def)
  have first: "ws_tokens (buf iss) = ?tok # ws_tokens ?rem"
    using sk by (rule ws_tokens_first)
  then have t: "t = ?tok" and ts: "ts = ws_tokens ?rem" using assms(3) by simp_all
  have tok: "?tok \<noteq> []" using first ws_tokens_from_split [of "[]" ?sk] ws_tokens_dropWhile_space[of "buf iss"]
    by (auto simp: ws_tokens_def split: if_splits)
  have e: "\<forall>str. extract_string iss str = (iss\<lparr>buf := ?rem, eofbit := (?rem = [])\<rparr>, t)"
    using g sk t by (simp add: extract_string_def Let_def del: dropWhile_eq_Nil_conv)
  have split: "buf iss = ?p @ ?rem" by simp
  have "dropWhile isspace ?p = ?tok"
  proof -
    have "dropWhile isspace ?p = dropWhile isspace ?tok"
      by (rule dropWhile_append2) (auto dest: set_takeWhileD)
    also have "\<dots> = ?tok"
    proof -
      have "hd ?tok \<in> set ?tok" using tok by simp
      then have "\<not> isspace (hd ?tok)" by (auto dest: set_takeWhileD)
      then show ?thesis using tok by (cases ?tok) simp_all
    qed
    finally show ?thesis .
  qed
  then have wp1: "ws_tokens ?p = ?tok # ws_tokens (dropWhile (\<lambda>c. \<not> isspace c) ?tok)"
    using ws_tokens_first [of ?p] tok by simp
  have wp2: "dropWhile (\<lambda>c. \<not> isspace c) ?tok = []"
    by (rule dropWhile_takeWhile_same)
  have wp3: "ws_tokens [] = []" by (simp add: ws_tokens_def)
  have wp: "ws_tokens ?p = [t]" unfolding t by (simp only: wp1 wp2 wp3)
  have lp: "\<not> isspace (last ?p)"
  proof -
    have "last ?p = last ?tok" using tok by simp
    moreover have "last ?tok \<in> set ?tok" using tok by simp
    ultimately show ?thesis by (auto dest: set_takeWhileD)
  qed
  have hd: "?rem = [] \<or> isspace (hd ?rem)"
    using hd_dropWhile [of "\<lambda>c. \<not> isspace c" ?sk] by auto
  show ?thesis
    using e assms(1) ts split wp tok lp hd
    by (intro exI [of _ "iss\<lparr>buf := ?rem, eofbit := (?rem = [])\<rparr>"] exI [of _ ?p]) simp
qed

lemma extract_string_none:
  assumes "ws_tokens (buf iss) = [] \<or> failbit iss"
  shows "\<exists>iss'. (\<forall>str. extract_string iss str = (iss', str)) \<and> failbit iss'"
proof (cases "good iss")
  case True
  then have "dropWhile isspace (buf iss) = []"
    using assms by (simp only: ws_tokens_Nil_iff good_def) blast
  then have "\<forall>str. extract_string iss str
                 = (iss\<lparr>buf := [], eofbit := True, failbit := True\<rparr>, str)"
    using True by (simp add: extract_string_def Let_def del: dropWhile_eq_Nil_conv)
  then show ?thesis by (intro exI [of _ "iss\<lparr>buf := [], eofbit := True, failbit := True\<rparr>"]) simp
next
  case False
  then have "\<forall>str. extract_string iss str = (iss\<lparr>failbit := True\<rparr>, str)"
    by (simp add: extract_string_def)
  then show ?thesis by (intro exI [of _ "iss\<lparr>failbit := True\<rparr>"]) simp
qed

lemma getline_content:
  assumes "\<not> failbit iss" and "eofbit iss \<longleftrightarrow> buf iss = []"
  shows "snd (getline iss []) = takeWhile (\<lambda>c. c \<noteq> CHR 0x0A) (buf iss)"
proof (cases "buf iss = []")
  case True
  then show ?thesis using assms by (simp add: getline_def good_def)
next
  case False
  then have "good iss" using assms by (simp add: good_def)
  then show ?thesis
    by (simp add: getline_def Let_def split: list.splits)
qed

lemma hd_prefix_space:
  assumes "b = p @ b'" and "p \<noteq> []" and "b = [] \<or> isspace (hd b)"
  shows "isspace (hd (p @ r))"
  using assms by (cases p) auto

lemma parse_line_four_tokens:
  assumes "ws_tokens line = t0 # t1 # t2 # t3 # ts"
  shows "\<exists>pre rest. line = pre @ rest \<and> ws_tokens pre = [t0, t1, t2, t3] \<and> pre \<noteq> []
           \<and> \<not> isspace (last pre) \<and> (rest = [] \<or> isspace (hd rest)) \<and> ws_tokens rest = ts
           \<and> (\<forall>entry. parse_line line entry
                 = (True, \<lparr>timestamp = t0 @ '' '' @ t1, level = t2, service = t3,
                           message = (let r = takeWhile (\<lambda>c. c \<noteq> CHR 0x0A) rest
                                      in if r \<noteq> [] \<and> hd r = CHR '' '' then tl r else r)\<rparr>))"
proof -
  let ?iss0 = "istringstream_init line"
  have i0: "\<not> failbit ?iss0" "eofbit ?iss0 \<longrightarrow> buf ?iss0 = []"
    "ws_tokens (buf ?iss0) = t0 # t1 # t2 # t3 # ts"
    using assms by (simp_all add: istringstream_init_def)
  obtain iss1 p1 where e1: "\<forall>str. extract_string ?iss0 str = (iss1, t0)"
    and i1: "\<not> failbit iss1" "eofbit iss1 \<longleftrightarrow> buf iss1 = []"
            "ws_tokens (buf iss1) = t1 # t2 # t3 # ts"
    and s1: "buf ?iss0 = p1 @ buf iss1" "ws_tokens p1 = [t0]" "p1 \<noteq> []"
            "buf iss1 = [] \<or> isspace (hd (buf iss1))"
    using extract_string_token [OF i0] by blast
  have i1': "eofbit iss1 \<longrightarrow> buf iss1 = []" using i1(2) by simp
  obtain iss2 p2 where e2: "\<forall>str. extract_string iss1 str = (iss2, t1)"
    and i2: "\<not> failbit iss2" "eofbit iss2 \<longleftrightarrow> buf iss2 = []"
            "ws_tokens (buf iss2) = t2 # t3 # ts"
    and s2: "buf iss1 = p2 @ buf iss2" "ws_tokens p2 = [t1]" "p2 \<noteq> []"
            "buf iss2 = [] \<or> isspace (hd (buf iss2))"
    using extract_string_token [OF i1(1) i1' i1(3)] by blast
  have i2': "eofbit iss2 \<longrightarrow> buf iss2 = []" using i2(2) by simp
  obtain iss3 p3 where e3: "\<forall>str. extract_string iss2 str = (iss3, t2)"
    and i3: "\<not> failbit iss3" "eofbit iss3 \<longleftrightarrow> buf iss3 = []"
            "ws_tokens (buf iss3) = t3 # ts"
    and s3: "buf iss2 = p3 @ buf iss3" "ws_tokens p3 = [t2]" "p3 \<noteq> []"
            "buf iss3 = [] \<or> isspace (hd (buf iss3))"
    using extract_string_token [OF i2(1) i2' i2(3)] by blast
  have i3': "eofbit iss3 \<longrightarrow> buf iss3 = []" using i3(2) by simp
  obtain iss4 p4 where e4: "\<forall>str. extract_string iss3 str = (iss4, t3)"
    and i4: "\<not> failbit iss4" "eofbit iss4 \<longleftrightarrow> buf iss4 = []"
            "ws_tokens (buf iss4) = ts"
    and s4: "buf iss3 = p4 @ buf iss4" "ws_tokens p4 = [t3]" "p4 \<noteq> []"
            "\<not> isspace (last p4)" "buf iss4 = [] \<or> isspace (hd (buf iss4))"
    using extract_string_token [OF i3(1) i3' i3(3)] by blast
  let ?pre = "p1 @ p2 @ p3 @ p4"
  let ?rest = "buf iss4"
  have line: "line = ?pre @ ?rest"
    using s1(1) s2(1) s3(1) s4(1) by (simp add: istringstream_init_def)
  have h4: "isspace (hd (p4 @ []))" using hd_prefix_space [OF s4(1) s4(3) s3(4)] .
  have h3: "isspace (hd (p3 @ p4))" using hd_prefix_space [OF s3(1) s3(3) s2(4)] .
  have h2: "isspace (hd (p2 @ p3 @ p4))" using hd_prefix_space [OF s2(1) s2(3) s1(4)] .
  have w34: "ws_tokens (p3 @ p4) = [t2, t3]"
    using ws_tokens_append_space [of p4 p3] h4 s3(2) s4(2) by simp
  have w234: "ws_tokens (p2 @ p3 @ p4) = [t1, t2, t3]"
    using ws_tokens_append_space [of "p3 @ p4" p2] h3 s2(2) w34 by simp
  have wpre: "ws_tokens ?pre = [t0, t1, t2, t3]"
    using ws_tokens_append_space [of "p2 @ p3 @ p4" p1] h2 s1(2) w234 by simp
  have lastpre: "\<not> isspace (last ?pre)" using s4(3,4) by simp
  obtain iss5 where g: "getline iss4 [] = (iss5, takeWhile (\<lambda>c. c \<noteq> CHR 0x0A) ?rest)"
    using getline_content [OF i4(1) i4(2)] by (cases "getline iss4 []") simp
  have r: "entry\<lparr>level := a, service := b, timestamp := c, message := d\<rparr>
           = \<lparr>timestamp = c, level = a, service = b, message = d\<rparr>" for entry a b c d
    by (cases entry) simp
  have p: "\<forall>entry. parse_line line entry
             = (True, \<lparr>timestamp = t0 @ '' '' @ t1, level = t2, service = t3,
                       message = (let r = takeWhile (\<lambda>c. c \<noteq> CHR 0x0A) ?rest
                                  in if r \<noteq> [] \<and> hd r = CHR '' '' then tl r else r)\<rparr>)"
    using e1 e2 e3 e4 i4(1) g
    by (simp add: parse_line_def Let_def r)
  show ?thesis
    using line wpre lastpre s4(5) i4(3) p s1(3)
    by (intro exI [of _ ?pre] exI [of _ ?rest]) simp
qed

lemma parse_line_three_tokens:
  assumes "ws_tokens line = [t0, t1, t2]"
  shows "parse_line line entry = (False, entry\<lparr>level := t2\<rparr>)"
proof -
  let ?iss0 = "istringstream_init line"
  have i0: "\<not> failbit ?iss0" "eofbit ?iss0 \<longrightarrow> buf ?iss0 = []"
    "ws_tokens (buf ?iss0) = [t0, t1, t2]"
    using assms by (simp_all add: istringstream_init_def)
  obtain iss1 where e1: "\<forall>str. extract_string ?iss0 str = (iss1, t0)"
    and i1: "\<not> failbit iss1" "eofbit iss1 \<longleftrightarrow> buf iss1 = []" "ws_tokens (buf iss1) = [t1, t2]"
    using extract_string_token [OF i0] by blast
  have i1': "eofbit iss1 \<longrightarrow> buf iss1 = []" using i1(2) by simp
  obtain iss2 where e2: "\<forall>str. extract_string iss1 str = (iss2, t1)"
    and i2: "\<not> failbit iss2" "eofbit iss2 \<longleftrightarrow> buf iss2 = []" "ws_tokens (buf iss2) = [t2]"
    using extract_string_token [OF i1(1) i1' i1(3)] by blast
  have i2': "eofbit iss2 \<longrightarrow> buf iss2 = []" using i2(2) by simp
  obtain iss3 where e3: "\<forall>str. extract_string iss2 str = (iss3, t2)"
    and i3: "ws_tokens (buf iss3) = []"
    using extract_string_token [OF i2(1) i2' i2(3)] by blast
  obtain iss4 where e4: "\<forall>str. extract_string iss3 str = (iss4, str)" and i4: "failbit iss4"
    using extract_string_none [of iss3] i3 by blast
  show ?thesis
    using e1 e2 e3 e4 i4 by (simp add: parse_line_def Let_def)
qed

lemma parse_line_fewer_tokens:
  assumes "length (ws_tokens line) < 3"
  shows "parse_line line entry = (False, entry)"
proof -
  let ?iss0 = "istringstream_init line"
  have i0: "\<not> failbit ?iss0" "eofbit ?iss0 \<longrightarrow> buf ?iss0 = []" "buf ?iss0 = line"
    by (simp_all add: istringstream_init_def)
  have chain: "\<exists>iss1 iss2 d1 d2. extract_string ?iss0 [] = (iss1, d1)
                 \<and> extract_string iss1 [] = (iss2, d2)
                 \<and> (ws_tokens (buf iss2) = [] \<or> failbit iss2)"
  proof (cases "ws_tokens line")
    case Nil
    then obtain iss1 where e1: "\<forall>str. extract_string ?iss0 str = (iss1, str)" and f1: "failbit iss1"
      using extract_string_none [of ?iss0] i0(3) by auto
    obtain iss2 where e2: "\<forall>str. extract_string iss1 str = (iss2, str)" and f2: "failbit iss2"
      using extract_string_none [of iss1] f1 by blast
    show ?thesis using e1 e2 f2 by blast
  next
    case (Cons t0 ts)
    then have w0: "ws_tokens (buf ?iss0) = t0 # ts" using i0(3) by simp
    obtain iss1 where e1: "\<forall>str. extract_string ?iss0 str = (iss1, t0)"
      and i1: "\<not> failbit iss1" "eofbit iss1 \<longleftrightarrow> buf iss1 = []" "ws_tokens (buf iss1) = ts"
      using extract_string_token [OF i0(1,2) w0] by blast
    have i1': "eofbit iss1 \<longrightarrow> buf iss1 = []" using i1(2) by simp
    show ?thesis
    proof (cases ts)
      case Nil
      then obtain iss2 where e2: "\<forall>str. extract_string iss1 str = (iss2, str)" and f2: "failbit iss2"
        using extract_string_none [of iss1] i1(3) by auto
      show ?thesis using e1 e2 f2 by blast
    next
      case (Cons t1 ts')
      then have "ts' = []" using assms \<open>ws_tokens line = t0 # ts\<close> by simp
      then have w1: "ws_tokens (buf iss1) = [t1]" using i1(3) Cons by simp
      obtain iss2 where e2: "\<forall>str. extract_string iss1 str = (iss2, t1)"
        and i2: "ws_tokens (buf iss2) = []"
        using extract_string_token [OF i1(1) i1' w1] by blast
      show ?thesis using e1 e2 i2 by blast
    qed
  qed
  then obtain iss1 iss2 d1 d2 where e1: "extract_string ?iss0 [] = (iss1, d1)"
    and e2: "extract_string iss1 [] = (iss2, d2)"
    and n2: "ws_tokens (buf iss2) = [] \<or> failbit iss2" by blast
  obtain iss3 where e3: "\<forall>str. extract_string iss2 str = (iss3, str)" and f3: "failbit iss3"
    using extract_string_none [OF n2] by blast
  obtain iss4 where e4: "\<forall>str. extract_string iss3 str = (iss4, str)" and f4: "failbit iss4"
    using extract_string_none [of iss3] f3 by blast
  show ?thesis
    using e1 e2 e3 e4 f4 by (simp add: parse_line_def Let_def)
qed

text \<open>
  Claim C3. \<^verbatim>\<open>parse_line\<close> returns true exactly when the line has at least four
  white-space-separated tokens; with fewer, and so for the blank line, it returns
  false. It returns for every line, and on success the record it leaves depends on the
  line alone, not on what the caller's record held before.
\<close>

theorem parse_line_succeeds_iff_four_tokens:
  "(fst (parse_line line entry) \<longleftrightarrow> 4 \<le> length (ws_tokens line))
   \<and> (4 \<le> length (ws_tokens line) \<longrightarrow> parse_line line entry = parse_line line entry')
   \<and> (length (ws_tokens line) < 4 \<longrightarrow> \<not> fst (parse_line line entry))
   \<and> \<not> fst (parse_line [] entry)"
proof -
  have fails: "\<not> fst (parse_line l e)" if "length (ws_tokens l) < 4" for l e
  proof (cases "length (ws_tokens l) < 3")
    case True
    then show ?thesis by (simp add: parse_line_fewer_tokens)
  next
    case False
    then have "length (ws_tokens l) = 3" using that by simp
    then obtain t0 t1 t2 where "ws_tokens l = [t0, t1, t2]"
      by (auto simp: length_Suc_conv numeral_3_eq_3)
    then show ?thesis by (simp add: parse_line_three_tokens)
  qed
  have succeeds: "fst (parse_line line e) \<and> parse_line line e = parse_line line e'"
    if four: "4 \<le> length (ws_tokens line)" for e e'
  proof -
    obtain t0 t1 t2 t3 ts where "ws_tokens line = t0 # t1 # t2 # t3 # ts"
      using at_least_four_elements [OF four] by blast
    from parse_line_four_tokens [OF this] show ?thesis by auto
  qed
  have blank: "\<not> fst (parse_line [] entry)"
    by (rule fails) (simp add: ws_tokens_def)
  show ?thesis
    using fails [of line entry] succeeds [of entry entry'] blank
    by (cases "4 \<le> length (ws_tokens line)") auto
qed

theorem parse_line_succeeds_iff_four_tokens_witness:
  "4 \<le> length (ws_tokens ''2024-01-01 10:00:00 INFO auth user logged in'')
   \<and> fst (parse_line ''2024-01-01 10:00:00 INFO auth user logged in'' LogEntry_default)
   \<and> parse_line ''2024-01-01 10:00:00 INFO auth user logged in'' LogEntry_default
     = parse_line ''2024-01-01 10:00:00 INFO auth user logged in''
         \<lparr>timestamp = ''x'', level = ''y'', service = ''z'', message = ''w''\<rparr>
   \<and> length (ws_tokens ''bad line'') < 4
   \<and> \<not> fst (parse_line ''bad line'' LogEntry_default)"
proof -
  have a: "4 \<le> length (ws_tokens ''2024-01-01 10:00:00 INFO auth user logged in'')"
    by (simp add: ws_tokens_def isspace_def)
  have b: "length (ws_tokens ''bad line'') < 4"
    by (simp add: ws_tokens_def isspace_def)
  show ?thesis
    using a b
      parse_line_succeeds_iff_four_tokens
        [of "''2024-01-01 10:00:00 INFO auth user logged in''" LogEntry_default
            "\<lparr>timestamp = ''x'', level = ''y'', service = ''z'', message = ''w''\<rparr>"]
      parse_line_succeeds_iff_four_tokens [of "''bad line''" LogEntry_default LogEntry_default]
    by blast
qed

text \<open>
  Claim C5. Let a line, free of newline characters, have at least four tokens. It splits
  as \<open>pre @ rest\<close> where \<open>pre\<close> ends with the last character of the fourth token, so
  that \<open>rest\<close> is everything after the fourth token. Then \<^verbatim>\<open>parse_line\<close> succeeds with
  \<open>timestamp\<close> the first token, one space and the second token; \<open>level\<close> and \<open>service\<close>
  the third and fourth token; and \<open>message\<close> equal to \<open>rest\<close> without its first
  character when that is a space, and to \<open>rest\<close> itself otherwise. When the line has
  exactly four tokens and ends with the fourth, \<open>rest\<close> and the message are empty.
\<close>

theorem parse_line_fields:
  assumes "4 \<le> length (ws_tokens line)" and "newline_free line"
  shows "\<exists>pre rest. line = pre @ rest \<and> ws_tokens pre = take 4 (ws_tokens line)
           \<and> pre \<noteq> [] \<and> \<not> isspace (last pre) \<and> (rest = [] \<or> isspace (hd rest))
           \<and> parse_line line entry
               = (True, \<lparr>timestamp = ws_tokens line ! 0 @ '' '' @ ws_tokens line ! 1,
                         level = ws_tokens line ! 2, service = ws_tokens line ! 3,
                         message = (if rest \<noteq> [] \<and> hd rest = CHR '' '' then tl rest
                                    else rest)\<rparr>)
           \<and> (length (ws_tokens line) = 4 \<and> \<not> isspace (last line) \<longrightarrow>
                rest = [] \<and> message (snd (parse_line line entry)) = [])"
proof -
  obtain t0 t1 t2 t3 ts where toks: "ws_tokens line = t0 # t1 # t2 # t3 # ts"
    using at_least_four_elements [OF assms(1)] by blast
  from parse_line_four_tokens [OF toks]
  obtain pre rest where line: "line = pre @ rest"
    and pre: "ws_tokens pre = [t0, t1, t2, t3]" "pre \<noteq> []" "\<not> isspace (last pre)"
    and rest: "rest = [] \<or> isspace (hd rest)" "ws_tokens rest = ts"
    and p: "\<forall>entry. parse_line line entry
              = (True, \<lparr>timestamp = t0 @ '' '' @ t1, level = t2, service = t3,
                        message = (let r = takeWhile (\<lambda>c. c \<noteq> CHR 0x0A) rest
                                   in if r \<noteq> [] \<and> hd r = CHR '' '' then tl r else r)\<rparr>)"
    by blast
  have "CHR 0x0A \<notin> set rest" using assms(2) line by (simp add: newline_free_def)
  then have tw: "takeWhile (\<lambda>c. c \<noteq> CHR 0x0A) rest = rest"
    by (simp only: takeWhile_eq_all_conv) blast
  have res: "parse_line line entry
               = (True, \<lparr>timestamp = ws_tokens line ! 0 @ '' '' @ ws_tokens line ! 1,
                         level = ws_tokens line ! 2, service = ws_tokens line ! 3,
                         message = (if rest \<noteq> [] \<and> hd rest = CHR '' '' then tl rest
                                    else rest)\<rparr>)"
    using p by (simp add: tw toks Let_def)
  have nothing_after: "rest = []" if "length (ws_tokens line) = 4" "\<not> isspace (last line)"
  proof (rule ccontr)
    assume ne: "rest \<noteq> []"
    have "ts = []" using that(1) toks by simp
    then have "dropWhile isspace rest = []"
      using rest(2) by (simp only: ws_tokens_Nil_iff)
    then have "\<forall>c\<in>set rest. isspace c" by simp
    moreover have "last line \<in> set rest" using ne line by simp
    ultimately show False using that(2) by blast
  qed
  have empty: "length (ws_tokens line) = 4 \<and> \<not> isspace (last line) \<longrightarrow>
                 rest = [] \<and> message (snd (parse_line line entry)) = []"
    using nothing_after res by auto
  have "ws_tokens pre = take 4 (ws_tokens line)" using pre(1) toks by simp
  then show ?thesis
    using line pre(2,3) rest(1) res empty by blast
qed

theorem parse_line_fields_witness:
  "4 \<le> length (ws_tokens ''a b c d  x  y'') \<and> newline_free ''a b c d  x  y''
   \<and> parse_line ''a b c d  x  y'' LogEntry_default
       = (True, \<lparr>timestamp = ''a b'', level = ''c'', service = ''d'', message = '' x  y''\<rparr>)"
proof -
  have a: "4 \<le> length (ws_tokens ''a b c d  x  y'')"
    by (simp add: ws_tokens_def isspace_def)
  have b: "newline_free ''a b c d  x  y''"
    by (simp add: newline_free_def)
  have t: "ws_tokens ''a b c d  x  y'' = [''a'', ''b'', ''c'', ''d'', ''x'', ''y'']"
    by (simp add: ws_tokens_def isspace_def)
  from parse_line_fields [OF a b, of LogEntry_default]
  obtain pre rest where line: "''a b c d  x  y'' = pre @ rest"
    and pre: "ws_tokens pre = take 4 (ws_tokens ''a b c d  x  y'')" "pre \<noteq> []"
      "\<not> isspace (last pre)"
    and rest: "rest = [] \<or> isspace (hd rest)"
    and res: "parse_line ''a b c d  x  y'' LogEntry_default
               = (True, \<lparr>timestamp = ws_tokens ''a b c d  x  y'' ! 0 @ '' ''
                                        @ ws_tokens ''a b c d  x  y'' ! 1,
                         level = ws_tokens ''a b c d  x  y'' ! 2,
                         service = ws_tokens ''a b c d  x  y'' ! 3,
                         message = (if rest \<noteq> [] \<and> hd rest = CHR '' '' then tl rest
                                    else rest)\<rparr>)"
    by blast
  have "parse_line ''a b c d  x  y'' LogEntry_default
          = (True, \<lparr>timestamp = ''a b'', level = ''c'', service = ''d'', message = '' x  y''\<rparr>)"
    by (simp add: parse_line_def extract_string_def getline_def good_def isspace_def
          istringstream_init_def LogEntry_default_def Let_def)
  then show ?thesis using a b res by simp
qed

text \<open>
  Claim C9, as stated, at the line \<^verbatim>\<open>a b c\<close> and a record whose service field holds
  \<^verbatim>\<open>svc\<close>: the call returns false and sets the level field to the third token, but
  the service field is not cleared. The fourth extraction fails in its sentry, before
  the target string is erased, so the field keeps what the caller supplied.
\<close>

theorem parse_line_service_not_cleared_counterexample:
  "parse_line ''a b c'' \<lparr>timestamp = [], level = [], service = ''svc'', message = []\<rparr>
     = (False, \<lparr>timestamp = [], level = ''c'', service = ''svc'', message = []\<rparr>)
   \<and> service (snd (parse_line ''a b c''
                     \<lparr>timestamp = [], level = [], service = ''svc'', message = []\<rparr>)) \<noteq> []"
  by (simp add: parse_line_def extract_string_def good_def isspace_def
        istringstream_init_def Let_def)

text \<open>
  Claim C9, amended. Failure of \<^verbatim>\<open>parse_line\<close> is not atomic: for every line with
  exactly three tokens the call returns false and leaves the caller's record with its
  level field set to the third token, so the record has changed whenever its level
  was anything else. The service field, like the timestamp and the message, is left as
  the caller supplied it.
\<close>

theorem parse_line_failure_sets_level:
  assumes "length (ws_tokens line) = 3"
  shows "parse_line line entry = (False, entry\<lparr>level := ws_tokens line ! 2\<rparr>)
         \<and> service (snd (parse_line line entry)) = service entry
         \<and> timestamp (snd (parse_line line entry)) = timestamp entry
         \<and> message (snd (parse_line line entry)) = message entry
         \<and> (level entry \<noteq> ws_tokens line ! 2 \<longrightarrow> snd (parse_line line entry) \<noteq> entry)"
proof -
  obtain t0 t1 t2 where toks: "ws_tokens line = [t0, t1, t2]"
    using assms by (auto simp: length_Suc_conv numeral_3_eq_3)
  have "parse_line line entry = (False, entry\<lparr>level := t2\<rparr>)"
    using toks by (rule parse_line_three_tokens)
  then show ?thesis using toks by (cases entry) auto
qed

theorem parse_line_failure_sets_level_witness:
  "length (ws_tokens ''a b c'') = 3
   \<and> parse_line ''a b c'' LogEntry_default = (False, LogEntry_default\<lparr>level := ''c''\<rparr>)
   \<and> snd (parse_line ''a b c'' LogEntry_default) \<noteq> LogEntry_default"
proof -
  have a: "length (ws_tokens ''a b c'') = 3"
    by (simp add: ws_tokens_def isspace_def)
  have t: "ws_tokens ''a b c'' ! 2 = ''c''"
    by (simp add: ws_tokens_def isspace_def)
  have l: "level LogEntry_default \<noteq> ''c''"
    by (simp add: LogEntry_default_def)
  from parse_line_failure_sets_level [OF a, of LogEntry_default]
  have "parse_line ''a b c'' LogEntry_default = (False, LogEntry_default\<lparr>level := ''c''\<rparr>)"
    and "level LogEntry_default \<noteq> ''c'' \<longrightarrow>
           snd (parse_line ''a b c'' LogEntry_default) \<noteq> LogEntry_default"
    unfolding t by blast+
  then show ?thesis using a l by blast
qed

text \<open>
  A string with a newline inside is not a line: \<^verbatim>\<open>std::getline\<close> in \<^verbatim>\<open>parse_line\<close>
  stops at the newline, and the message ends there.
\<close>

lemma parse_line_stops_at_newline:
  "parse_line (''a b c d x'' @ [CHR 0x0A] @ ''y'') LogEntry_default
     = (True, \<lparr>timestamp = ''a b'', level = ''c'', service = ''d'', message = ''x''\<rparr>)"
  by (simp add: parse_line_def extract_string_def getline_def good_def isspace_def
        istringstream_init_def LogEntry_default_def Let_def)

section \<open>Properties of concurrent calls of write\<close>

lemma serialized_init: "serialized ow calls w (sink_init (length calls) w) [] []"
  by (simp add: serialized_def sink_init_def put_Nil)

lemma serializedI:
  assumes "length (progress s) = length calls"
    and "distinct order"
    and "set order = {i. i < length calls \<and> progress s ! i = After}"
    and "streams s
          = put (target ow) (concat (map (\<lambda>i. rendered_line ow (calls ! i)) order) @ partial) w"
    and "\<And>i k. i < length calls \<Longrightarrow> progress s ! i = Inside k \<Longrightarrow> locked s"
    and "\<And>i k. i < length calls \<Longrightarrow> progress s ! i = Inside k \<Longrightarrow>
            partial = concat (take k (write_chunks ow (fst (calls ! i)) (snd (calls ! i))))"
    and "\<And>i k j l. i < length calls \<Longrightarrow> progress s ! i = Inside k \<Longrightarrow>
            j < length calls \<Longrightarrow> progress s ! j = Inside l \<Longrightarrow> j = i"
    and "(\<And>i k. i < length calls \<Longrightarrow> progress s ! i \<noteq> Inside k) \<Longrightarrow> \<not> locked s \<and> partial = []"
  shows "serialized ow calls w s order partial"
  unfolding serialized_def using assms by blast

lemma call_step_serialized:
  assumes inv: "serialized ow calls w s order partial"
    and step: "call_step ow calls i s = Some s'"
  shows "\<exists>order' partial'. serialized ow calls w s' order' partial'"
proof -
  let ?n = "length calls"
  let ?chunks = "write_chunks ow (fst (calls ! i)) (snd (calls ! i))"
  have len: "length (progress s) = ?n" using inv by (simp add: serialized_def)
  have i: "i < ?n" using step len by (auto simp: call_step_def split: if_splits)
  have dist: "distinct order"
    and fin: "set order = {j. j < ?n \<and> progress s ! j = After}"
    and out: "streams s
          = put (target ow) (concat (map (\<lambda>i. rendered_line ow (calls ! i)) order) @ partial) w"
    using inv by (simp_all add: serialized_def)
  have inside: "locked s
            \<and> partial = concat (take k (write_chunks ow (fst (calls ! j)) (snd (calls ! j))))
            \<and> (\<forall>j' l. j' < ?n \<and> progress s ! j' = Inside l \<longrightarrow> j' = j)"
    if "j < ?n" "progress s ! j = Inside k" for j k
    using inv that unfolding serialized_def by blast
  have free: "\<not> locked s \<and> partial = []"
    if "\<forall>j k. j < ?n \<longrightarrow> progress s ! j \<noteq> Inside k"
    using inv that unfolding serialized_def by blast
  show ?thesis
  proof (cases "progress s ! i")
    case Before
    then have unl: "\<not> locked s"
      and s': "s' = s\<lparr>locked := True, progress := (progress s)[i := Inside 0]\<rparr>"
      using step i len by (auto simp: call_step_def split: if_splits)
    have none: "\<forall>j k. j < ?n \<longrightarrow> progress s ! j \<noteq> Inside k"
      using unl inside by blast
    then have p: "partial = []" using free by blast
    have nth': "progress s' ! j = (if j = i then Inside 0 else progress s ! j)" if "j < ?n" for j
      using that len by (simp add: s' nth_list_update)
    have "serialized ow calls w s' order []"
    proof (rule serializedI)
      show "length (progress s') = ?n" using len by (simp add: s')
      show "distinct order" by (rule dist)
      show "set order = {j. j < ?n \<and> progress s' ! j = After}"
        using fin nth' Before by (auto split: if_splits)
      show "streams s' = put (target ow)
              (concat (map (\<lambda>i. rendered_line ow (calls ! i)) order) @ []) w"
        using out p by (simp add: s')
      show "locked s'" by (simp add: s')
      show "[] = concat (take k (write_chunks ow (fst (calls ! j)) (snd (calls ! j))))"
        if "j < ?n" "progress s' ! j = Inside k" for j k
        using that nth' none by (cases "j = i") (auto split: if_splits)
      show "j = j0" if "j0 < ?n" "progress s' ! j0 = Inside k" "j < ?n" "progress s' ! j = Inside l"
        for j0 k j l
        using that nth' none by (metis progress.distinct progress.inject)
      show "\<not> locked s' \<and> [] = []" if "\<And>j k. j < ?n \<Longrightarrow> progress s' ! j \<noteq> Inside k"
        using that [OF i, of 0] nth' [OF i] by simp
    qed
    then show ?thesis by blast
  next
    case After
    then show ?thesis using step i len by (simp add: call_step_def)
  next
    case (Inside k)
    have lk: "locked s"
      and pk: "partial = concat (take k ?chunks)"
      and uniq: "\<forall>j' l. j' < ?n \<and> progress s ! j' = Inside l \<longrightarrow> j' = i"
      using inside [OF i Inside] by blast+
    consider (emit) "k < length ?chunks" | (flush) "k = length ?chunks" | (unlock) "k > length ?chunks"
      by linarith
    then show ?thesis
    proof cases
      case emit
      then have s': "s' = s\<lparr>progress := (progress s)[i := Inside (Suc k)],
                           streams := put (target ow) (?chunks ! k) (streams s)\<rparr>"
        using step i len Inside by (simp add: call_step_def Let_def)
      have nth': "progress s' ! j = (if j = i then Inside (Suc k) else progress s ! j)"
        if "j < ?n" for j
        using that len by (simp add: s' nth_list_update)
      have pk': "partial @ ?chunks ! k = concat (take (Suc k) ?chunks)"
        using emit pk by (simp add: take_Suc_conv_app_nth)
      have "serialized ow calls w s' order (concat (take (Suc k) ?chunks))"
      proof (rule serializedI)
        show "length (progress s') = ?n" using len by (simp add: s')
        show "distinct order" by (rule dist)
        show "set order = {j. j < ?n \<and> progress s' ! j = After}"
          using fin nth' Inside by (auto split: if_splits)
        have "streams s' = put (target ow) (?chunks ! k) (streams s)" by (simp add: s')
        also have "\<dots> = put (target ow)
              ((concat (map (\<lambda>i. rendered_line ow (calls ! i)) order) @ partial) @ ?chunks ! k) w"
          by (simp only: out put_append)
        finally show "streams s' = put (target ow)
              (concat (map (\<lambda>i. rendered_line ow (calls ! i)) order)
               @ concat (take (Suc k) ?chunks)) w"
          using pk' by simp
        show "locked s'" using lk by (simp add: s')
        show "concat (take (Suc k) ?chunks)
                = concat (take k' (write_chunks ow (fst (calls ! j)) (snd (calls ! j))))"
          if "j < ?n" "progress s' ! j = Inside k'" for j k'
          using that nth' uniq by (cases "j = i") (auto split: if_splits)
        show "j = j0" if "j0 < ?n" "progress s' ! j0 = Inside k0" "j < ?n" "progress s' ! j = Inside l"
          for j0 k0 j l
          using that nth' uniq by (metis)
        show "\<not> locked s' \<and> concat (take (Suc k) ?chunks) = []"
          if "\<And>j k. j < ?n \<Longrightarrow> progress s' ! j \<noteq> Inside k"
          using that [OF i, of "Suc k"] nth' [OF i] by simp
      qed
      then show ?thesis by blast
    next
      case flush
      then have s': "s' = s\<lparr>progress := (progress s)[i := Inside (Suc k)]\<rparr>"
        using step i len Inside by (simp add: call_step_def Let_def)
      have nth': "progress s' ! j = (if j = i then Inside (Suc k) else progress s ! j)"
        if "j < ?n" for j
        using that len by (simp add: s' nth_list_update)
      have pk': "partial = concat (take (Suc k) ?chunks)"
        using flush pk by simp
      have "serialized ow calls w s' order partial"
      proof (rule serializedI)
        show "length (progress s') = ?n" using len by (simp add: s')
        show "distinct order" by (rule dist)
        show "set order = {j. j < ?n \<and> progress s' ! j = After}"
          using fin nth' Inside by (auto split: if_splits)
        show "streams s' = put (target ow)
              (concat (map (\<lambda>i. rendered_line ow (calls ! i)) order) @ partial) w"
          using out by (simp add: s')
        show "locked s'" using lk by (simp add: s')
        show "partial = concat (take k' (write_chunks ow (fst (calls ! j)) (snd (calls ! j))))"
          if "j < ?n" "progress s' ! j = Inside k'" for j k'
          using that nth' uniq pk' by (cases "j = i") (auto split: if_splits)
        show "j = j0" if "j0 < ?n" "progress s' ! j0 = Inside k0" "j < ?n" "progress s' ! j = Inside l"
          for j0 k0 j l
          using that nth' uniq by (metis)
        show "\<not> locked s' \<and> partial = []"
          if "\<And>j k. j < ?n \<Longrightarrow> progress s' ! j \<noteq> Inside k"
          using that [OF i, of "Suc k"] nth' [OF i] by simp
      qed
      then show ?thesis by blast
    next
      case unlock
      then have s': "s' = s\<lparr>locked := False, progress := (progress s)[i := After]\<rparr>"
        using step i len Inside by (simp add: call_step_def Let_def)
      have nth': "progress s' ! j = (if j = i then After else progress s ! j)"
        if "j < ?n" for j
        using that len by (simp add: s' nth_list_update)
      have pk': "partial = rendered_line ow (calls ! i)"
        using unlock pk by (simp add: rendered_line_def)
      have notin: "i \<notin> set order" using fin Inside by simp
      have "serialized ow calls w s' (order @ [i]) []"
      proof (rule serializedI)
        show "length (progress s') = ?n" using len by (simp add: s')
        show "distinct (order @ [i])" using dist notin by simp
        show "set (order @ [i]) = {j. j < ?n \<and> progress s' ! j = After}"
          using fin nth' i by (auto split: if_splits)
        show "streams s' = put (target ow)
              (concat (map (\<lambda>i. rendered_line ow (calls ! i)) (order @ [i])) @ []) w"
          using out pk' by (simp add: s')
        show "locked s'" if "j < ?n" "progress s' ! j = Inside k'" for j k'
          using that nth' uniq by (cases "j = i") (auto split: if_splits)
        show "[] = concat (take k' (write_chunks ow (fst (calls ! j)) (snd (calls ! j))))"
          if "j < ?n" "progress s' ! j = Inside k'" for j k'
          using that nth' uniq by (cases "j = i") (auto split: if_splits)
        show "j = j0" if "j0 < ?n" "progress s' ! j0 = Inside k0" "j < ?n" "progress s' ! j = Inside l"
          for j0 k0 j l
          using that nth' uniq by (metis progress.distinct)
        show "\<not> locked s' \<and> [] = []" by (simp add: s')
      qed
      then show ?thesis by blast
    qed
  qed
qed

lemma schedule_serialized:
  "serialized ow calls w s order partial \<Longrightarrow> schedule ow calls sched s = Some s' \<Longrightarrow>
   \<exists>order' partial'. serialized ow calls w s' order' partial'"
proof (induction sched arbitrary: s order partial)
  case Nil
  then show ?case by auto
next
  case (Cons i sched)
  then obtain s1 where s1: "call_step ow calls i s = Some s1"
    and rest: "schedule ow calls sched s1 = Some s'"
    by (auto split: option.splits)
  obtain order1 partial1 where "serialized ow calls w s1 order1 partial1"
    using call_step_serialized [OF Cons.prems(1) s1] by blast
  then show ?case using Cons.IH rest by blast
qed


lemma write_all_lines:
  "write_all ow cs w = put (target ow) (concat (map (rendered_line ow) cs)) w"
  by (induction cs arbitrary: w) (simp_all add: put_Nil put_append write_rendered_line)

text \<open>
  Claim C2. Take any calls of \<^verbatim>\<open>write\<close> on one writer and any interleaving of their
  steps that the mutex admits. At every moment at most one call is inside its
  render-append-flush sequence, and the bytes the destination has received are the
  complete lines of the calls that have returned, one whole line after the other,
  followed only by the part of its line that the one call inside has sent so far. When
  all calls have returned, the destination holds exactly what the same calls made one
  after the other, in the order in which they took the mutex, would have sent.
\<close>

theorem concurrent_writes_not_interleaved:
  assumes "schedule ow calls sched (sink_init (length calls) w) = Some s"
  shows "\<exists>order partial.
           distinct order
           \<and> set order = {i. i < length calls \<and> progress s ! i = After}
           \<and> streams s
               = put (target ow)
                   (concat (map (\<lambda>i. rendered_line ow (calls ! i)) order) @ partial) w
           \<and> (\<forall>i k. i < length calls \<and> progress s ! i = Inside k \<longrightarrow>
                 partial = concat (take k (write_chunks ow (fst (calls ! i)) (snd (calls ! i))))
                 \<and> (\<forall>j l. j < length calls \<and> progress s ! j = Inside l \<longrightarrow> j = i))
           \<and> ((\<forall>i k. i < length calls \<longrightarrow> progress s ! i \<noteq> Inside k) \<longrightarrow> partial = [])
           \<and> ((\<forall>i. i < length calls \<longrightarrow> progress s ! i = After) \<longrightarrow>
                 set order = {i. i < length calls}
                 \<and> streams s = write_all ow (map (\<lambda>i. calls ! i) order) w)"
proof -
  obtain order partial where inv: "serialized ow calls w s order partial"
    using schedule_serialized [OF serialized_init assms] by blast
  have dist: "distinct order"
    and fin: "set order = {i. i < length calls \<and> progress s ! i = After}"
    and out: "streams s
          = put (target ow) (concat (map (\<lambda>i. rendered_line ow (calls ! i)) order) @ partial) w"
    using inv by (simp_all add: serialized_def)
  have inside: "\<forall>i k. i < length calls \<and> progress s ! i = Inside k \<longrightarrow>
                 partial = concat (take k (write_chunks ow (fst (calls ! i)) (snd (calls ! i))))
                 \<and> (\<forall>j l. j < length calls \<and> progress s ! j = Inside l \<longrightarrow> j = i)"
    using inv unfolding serialized_def by blast
  have free: "(\<forall>i k. i < length calls \<longrightarrow> progress s ! i \<noteq> Inside k) \<longrightarrow> partial = []"
    using inv unfolding serialized_def by blast
  have complete: "set order = {i. i < length calls}
              \<and> streams s = write_all ow (map (\<lambda>i. calls ! i) order) w"
    if all: "\<forall>i. i < length calls \<longrightarrow> progress s ! i = After"
  proof -
    have "\<forall>i k. i < length calls \<longrightarrow> progress s ! i \<noteq> Inside k" using all by simp
    then have "partial = []" using free by blast
    then have "streams s = write_all ow (map (\<lambda>i. calls ! i) order) w"
      using out by (simp add: write_all_lines comp_def)
    moreover have "set order = {i. i < length calls}" using fin all by blast
    ultimately show ?thesis by blast
  qed
  show ?thesis
    using dist fin out inside free complete by blast
qed

theorem concurrent_writes_not_interleaved_witness:
  "schedule \<lparr>target = File\<rparr>
       [(\<lparr>timestamp = ''t'', level = ''l'', service = ''s'', message = ''m''\<rparr>, 0),
        (\<lparr>timestamp = ''u'', level = ''k'', service = ''r'', message = ''n''\<rparr>, 1)]
       [1, 1, 1, 1, 1, 1, 1, 1, 1, 1, 1, 1, 0, 0, 0]
       (sink_init 2 \<lparr>cout_bytes = [], cerr_bytes = [], file_bytes = []\<rparr>)
     = Some \<lparr>locked = True, progress = [Inside 2, After],
             streams = \<lparr>cout_bytes = [], cerr_bytes = [],
                        file_bytes = ''[u] k r n'' @ [CHR 0x0A] @ ''[t''\<rparr>\<rparr>
   \<and> (\<exists>order partial.
         distinct order \<and> set order = {1}
         \<and> \<lparr>cout_bytes = [], cerr_bytes = [], file_bytes = ''[u] k r n'' @ [CHR 0x0A] @ ''[t''\<rparr>
             = put File
                 (concat (map (\<lambda>i. rendered_line \<lparr>target = File\<rparr>
                     ([(\<lparr>timestamp = ''t'', level = ''l'', service = ''s'', message = ''m''\<rparr>, 0),
                       (\<lparr>timestamp = ''u'', level = ''k'', service = ''r'', message = ''n''\<rparr>, 1)]
                      ! i)) order) @ partial)
                 \<lparr>cout_bytes = [], cerr_bytes = [], file_bytes = []\<rparr>)"
proof -
  let ?calls = "[(\<lparr>timestamp = ''t'', level = ''l'', service = ''s'', message = ''m''\<rparr>, 0::int),
        (\<lparr>timestamp = ''u'', level = ''k'', service = ''r'', message = ''n''\<rparr>, 1)]"
  let ?w = "\<lparr>cout_bytes = [], cerr_bytes = [], file_bytes = []\<rparr>"
  let ?s = "\<lparr>locked = True, progress = [Inside 2, After],
             streams = \<lparr>cout_bytes = [], cerr_bytes = [],
                        file_bytes = ''[u] k r n'' @ [CHR 0x0A] @ ''[t''\<rparr>\<rparr>"
  let ?bytes = "\<lparr>cout_bytes = [], cerr_bytes = [],
                  file_bytes = ''[u] k r n'' @ [CHR 0x0A] @ ''[t''\<rparr>"
  have run2: "schedule \<lparr>target = File\<rparr> ?calls [1, 1, 1, 1, 1, 1, 1, 1, 1, 1, 1, 1, 0, 0, 0]
               (sink_init 2 ?w) = Some ?s"
    by (simp add: sink_init_def call_step_def write_chunks_def put_def eval_nat_numeral)
  have l: "length ?calls = 2" by simp
  have run: "schedule \<lparr>target = File\<rparr> ?calls [1, 1, 1, 1, 1, 1, 1, 1, 1, 1, 1, 1, 0, 0, 0]
               (sink_init (length ?calls) ?w) = Some ?s"
    unfolding l by (rule run2)
  have after: "{i. i < length ?calls \<and> progress ?s ! i = After} = {1}"
    by (auto simp: less_Suc_eq)
  have st: "streams ?s = ?bytes" by simp
  have tg: "target \<lparr>target = File\<rparr> = File" by simp
  from concurrent_writes_not_interleaved [OF run]
  obtain order partial where "distinct order"
    and "set order = {i. i < length ?calls \<and> progress ?s ! i = After}"
    and "streams ?s = put (target \<lparr>target = File\<rparr>)
           (concat (map (\<lambda>i. rendered_line \<lparr>target = File\<rparr> (?calls ! i)) order) @ partial) ?w"
    by blast
  then have "distinct order \<and> set order = {1}
       \<and> ?bytes = put File
           (concat (map (\<lambda>i. rendered_line \<lparr>target = File\<rparr> (?calls ! i)) order) @ partial) ?w"
    unfolding after st tg by blast
  then have ex: "\<exists>order partial. distinct order \<and> set order = {1}
       \<and> ?bytes = put File
           (concat (map (\<lambda>i. rendered_line \<lparr>target = File\<rparr> (?calls ! i)) order) @ partial) ?w"
    by blast
  show ?thesis
    by (rule conjI) (rule run2, rule ex)
qed

end
